theory Spec2Isabelle
  imports Main
begin

unbundle bit_operations_syntax

section \<open>S2 cell identifiers (Source/Core/S2Cell.js)\<close>

text \<open>
  A cell identifier is a JavaScript \<open>BigInt\<close>: an integer of unbounded size, so it is an
  \<open>int\<close> here. On a \<open>BigInt\<close>, \<open>&\<close>, \<open>|\<close> and \<open>~\<close> act on the infinite two's complement
  representation (\<open>AND\<close>, \<open>OR\<close>, \<open>NOT\<close> on \<open>int\<close>), \<open>>>\<close> is the arithmetic shift
  (\<open>drop_bit\<close>) and \<open><<\<close> multiplies by a power of two (\<open>push_bit\<close>). A 64-bit identifier
  is an \<open>int\<close> in \<open>[0, 2^64)\<close>.

  The checks between \<open>//>>includeStart('debug', ...)\<close> and \<open>//>>includeEnd('debug')\<close> are
  part of the source as it is written and they are modelled. \<open>Check.typeOf.bigint\<close>,
  \<open>Check.typeOf.string\<close>, \<open>Check.typeOf.number\<close> and \<open>defined\<close> reject values of another
  JavaScript type; the types of the model exclude those values.
\<close>

subsection \<open>Constants\<close>

definition S2MaxLevel :: int where
  "S2MaxLevel = 30"

definition S2PositionBits :: nat where
  "S2PositionBits = nat (2 * S2MaxLevel + 1)"

definition S2LookupBits :: int where
  "S2LookupBits = 4"

definition S2SwapMask :: int where
  "S2SwapMask = 1"

definition S2InvertMask :: int where
  "S2InvertMask = 2"

subsection \<open>Errors\<close>

text \<open>
  \<open>DeveloperError\<close> carries the message of the \<open>throw\<close>, \<open>None\<close> where the source gives
  none (\<open>new DeveloperError()\<close>). \<open>RangeError\<close>, \<open>SyntaxError\<close> and \<open>TypeError\<close> are raised by
  the language itself.
\<close>

datatype error =
    DeveloperError "string option"
  | RuntimeError string
  | RangeError
  | SyntaxError
  | TypeError

subsection \<open>32-bit operators on integral Numbers\<close>

text \<open>
  The operators \<open><<\<close>, \<open>>>\<close>, \<open>&\<close>, \<open>|\<close> and \<open>^\<close> on Numbers first convert each operand
  with ToInt32 (reduction modulo \<open>2^32\<close> into \<open>[-2^31, 2^31)\<close>), take the shift count modulo
  32, and give a signed 32-bit result.
\<close>

definition ToInt32 :: "int \<Rightarrow> int" where
  "ToInt32 n = signed_take_bit 31 n"

definition js_shl :: "int \<Rightarrow> int \<Rightarrow> int" where
  "js_shl a b = ToInt32 (push_bit (nat (ToInt32 b mod 32)) (ToInt32 a))"

definition js_shr :: "int \<Rightarrow> int \<Rightarrow> int" where
  "js_shr a b = drop_bit (nat (ToInt32 b mod 32)) (ToInt32 a)"

definition js_and :: "int \<Rightarrow> int \<Rightarrow> int" where
  "js_and a b = ToInt32 a AND ToInt32 b"

definition js_or :: "int \<Rightarrow> int \<Rightarrow> int" where
  "js_or a b = ToInt32 a OR ToInt32 b"

definition js_xor :: "int \<Rightarrow> int \<Rightarrow> int" where
  "js_xor a b = ToInt32 a XOR ToInt32 b"

subsection \<open>The identifier codec\<close>

text \<open>\<open>function lsb(cellId) { return cellId & (~cellId + BigInt(1)); }\<close>\<close>

definition lsb :: "int \<Rightarrow> int" where
  "lsb cellId = cellId AND (NOT cellId + 1)"

text \<open>
  \<open>S2Cell.isValidId\<close>. \<open>!(lowestSetBit & BigInt("0x1555555555555555"))\<close> holds when the
  conjunction is \<open>0n\<close>, the only falsy \<open>BigInt\<close>.
\<close>

definition isValidId :: "int \<Rightarrow> bool" where
  "isValidId cellId =
     (if cellId \<le> 0 then False
      else if drop_bit S2PositionBits cellId > 5 then False
      else let lowestSetBit = cellId AND (NOT cellId + 1) in
        if lowestSetBit AND 0x1555555555555555 = 0 then False
        else True)"

text \<open>
  The loop of \<open>S2Cell.getLevel\<close>, on the pair \<open>(cellId, lsbPosition)\<close>:
  \<^verbatim>\<open>while (cellId !== BigInt(0)) { if (cellId & BigInt(1)) break;
    lsbPosition++; cellId = cellId >> BigInt(1); }\<close>
  It ends on every \<open>BigInt\<close>: an even non-zero value gets closer to zero, and \<open>-1\<close> is odd.
\<close>

function getLevel_loop :: "int \<Rightarrow> int \<Rightarrow> int" where
  "getLevel_loop cellId lsbPosition =
     (if cellId \<noteq> 0 then
        (if cellId AND 1 \<noteq> 0 then lsbPosition
         else getLevel_loop (drop_bit 1 cellId) (lsbPosition + 1))
      else lsbPosition)"
  by pat_completeness auto
termination
proof (relation "measure (\<lambda>(cellId, lsbPosition). nat \<bar>cellId\<bar>)")
  show "wf (measure (\<lambda>(cellId, lsbPosition). nat \<bar>cellId\<bar>))"
    by simp
next
  fix cellId lsbPosition :: int
  assume "cellId \<noteq> 0" and "\<not> cellId AND 1 \<noteq> 0"
  then have "even cellId"
    by (simp add: and_one_eq mod_2_eq_odd)
  with \<open>cellId \<noteq> 0\<close> have "\<bar>cellId div 2\<bar> < \<bar>cellId\<bar>"
    by (elim evenE) auto
  then show "((drop_bit 1 cellId, lsbPosition + 1), (cellId, lsbPosition))
      \<in> measure (\<lambda>(cellId, lsbPosition). nat \<bar>cellId\<bar>)"
    by (simp add: drop_bit_eq_div)
qed

declare getLevel_loop.simps [simp del]

definition getLevel :: "int \<Rightarrow> error + int" where
  "getLevel cellId =
     (if \<not> isValidId cellId then Inl (DeveloperError None)
      else Inr (S2MaxLevel - js_shr (getLevel_loop cellId 0) 1))"

subsection \<open>Cells\<close>

text \<open>The fields \<open>this._cellId\<close> and \<open>this._level\<close> of an \<open>S2Cell\<close> object.\<close>

record s2cell =
  this_cellId :: int
  this_level :: int

text \<open>
  The constructor. \<open>FeatureDetection.supportsBigInt()\<close> is a fact of the host, taken as the
  parameter \<open>supportsBigInt\<close>.
\<close>

definition S2Cell :: "bool \<Rightarrow> int \<Rightarrow> error + s2cell" where
  "S2Cell supportsBigInt cellId =
     (if \<not> supportsBigInt then Inl (RuntimeError ''S2 required BigInt support'')
      else if \<not> isValidId cellId then Inl (DeveloperError (Some ''cell ID is invalid.''))
      else case getLevel cellId of
          Inl e \<Rightarrow> Inl e
        | Inr l \<Rightarrow> Inr \<lparr>this_cellId = cellId, this_level = l\<rparr>)"

text \<open>
  \<open>S2Cell.prototype.getChild\<close> and \<open>getParent\<close>. Neither assigns to a field of \<open>this\<close>: the
  receiver is an argument and the new cell is the result. The index is an integral
  Number; \<open>BigInt(2 * index + 1 - 4)\<close> is then exact.
\<close>

definition getChild :: "bool \<Rightarrow> s2cell \<Rightarrow> int \<Rightarrow> error + s2cell" where
  "getChild supportsBigInt this index =
     (if index < 0 \<or> index > 3 then
        Inl (DeveloperError (Some ''child index must be in the range [0-3].''))
      else if this_level this = 30 then
        Inl (DeveloperError (Some ''cannot get child of leaf cell.''))
      else let newLsb = drop_bit 2 (lsb (this_cellId this));
               childCellId = this_cellId this + (2 * index + 1 - 4) * newLsb
           in S2Cell supportsBigInt childCellId)"

definition getParent :: "bool \<Rightarrow> s2cell \<Rightarrow> error + s2cell" where
  "getParent supportsBigInt this =
     (if this_level this = 0 then
        Inl (DeveloperError (Some ''cannot get parent of root cell.''))
      else let newLsb = push_bit 2 (lsb (this_cellId this))
           in S2Cell supportsBigInt ((this_cellId this AND (NOT newLsb + 1)) OR newLsb))"

subsection \<open>Tokens\<close>

text \<open>
  \<open>cellId.toString(16)\<close>: the digits of a \<open>BigInt\<close> in base 16, lowercase, without
  leading zeros, with a minus sign for a negative value.
\<close>

definition hexDigit :: "nat \<Rightarrow> char" where
  "hexDigit d = ''0123456789abcdef'' ! (d mod 16)"

fun hexDigits :: "nat \<Rightarrow> string" where
  "hexDigits n = (if n < 16 then [hexDigit n] else hexDigits (n div 16) @ [hexDigit (n mod 16)])"

declare hexDigits.simps [simp del]

definition BigInt_toString16 :: "int \<Rightarrow> string" where
  "BigInt_toString16 n = (if n < 0 then CHR ''-'' # hexDigits (nat (- n)) else hexDigits (nat n))"

text \<open>
  \<open>.replace(/0*$/, "")\<close>: the pattern has no \<open>g\<close> flag, so the leftmost match is replaced;
  the leftmost place where \<open>0*\<close> reaches the end of the string is the start of the final run
  of zeros.
\<close>

definition stripTrailingZeros :: "string \<Rightarrow> string" where
  "stripTrailingZeros s = rev (dropWhile (\<lambda>c. c = CHR ''0'') (rev s))"

definition getTokenFromId :: "int \<Rightarrow> string" where
  "getTokenFromId cellId =
     (if cellId = 0 then ''X'' else stripTrailingZeros (BigInt_toString16 cellId))"

text \<open>
  \<open>BigInt("0x" + rest)\<close>: white space at the end of the string is skipped, and what is left
  after \<open>0x\<close> must be one or more hexadecimal digits of either case, else a \<open>SyntaxError\<close>
  is thrown. Characters are bytes here; the white space of the model is that of ASCII.
\<close>

definition hexValue :: "char \<Rightarrow> nat option" where
  "hexValue c =
     (let n = of_char c :: nat in
      if 48 \<le> n \<and> n \<le> 57 then Some (n - 48)
      else if 97 \<le> n \<and> n \<le> 102 then Some (n - 87)
      else if 65 \<le> n \<and> n \<le> 70 then Some (n - 55)
      else None)"

fun parseHex :: "nat \<Rightarrow> string \<Rightarrow> nat option" where
  "parseHex acc [] = Some acc"
| "parseHex acc (c # cs) =
     (case hexValue c of None \<Rightarrow> None | Some d \<Rightarrow> parseHex (16 * acc + d) cs)"

definition isWhiteSpace :: "char \<Rightarrow> bool" where
  "isWhiteSpace c = (of_char c \<in> {9, 10, 11, 12, 13, 32 :: nat})"

definition BigInt_of_0x :: "string \<Rightarrow> error + int" where
  "BigInt_of_0x rest =
     (let digits = rev (dropWhile isWhiteSpace (rev rest)) in
      if digits = [] then Inl SyntaxError
      else case parseHex 0 digits of None \<Rightarrow> Inl SyntaxError | Some n \<Rightarrow> Inr (int n))"

text \<open>
  \<open>S2Cell.getIdFromToken\<close>. \<open>"0".repeat(n)\<close> throws a \<open>RangeError\<close> for a negative \<open>n\<close>,
  that is for a token of more than 16 characters.
\<close>

definition getIdFromToken :: "string \<Rightarrow> error + int" where
  "getIdFromToken token =
     (if token = ''X'' then Inr 0
      else if 16 < length token then Inl RangeError
      else BigInt_of_0x (token @ replicate (16 - length token) CHR ''0''))"

subsection \<open>Numbers that need not be integers\<close>

text \<open>
  A Number is a double. The finite Numbers of this file are integers; \<open>NaN\<close> arises from
  arithmetic on \<open>undefined\<close>, and an infinity from the conversion of a large \<open>BigInt\<close>.
\<close>

datatype number = Num int | NaN | PosInfinity | NegInfinity

text \<open>
  \<open>Number(b)\<close> for a \<open>BigInt b\<close>, and the result of an exact integer computation stored
  as a double: rounded to 53 significant bits, to nearest, ties to even; an infinity from
  \<open>2^1024\<close> on. \<open>bitLength n\<close> is the number of binary digits of \<open>n\<close>.
\<close>

fun bitLength :: "nat \<Rightarrow> nat" where
  "bitLength n = (if n = 0 then 0 else Suc (bitLength (n div 2)))"

declare bitLength.simps [simp del]

definition Number_of_BigInt :: "int \<Rightarrow> number" where
  "Number_of_BigInt b =
     (let m = \<bar>b\<bar>; n = bitLength (nat m) in
      if n \<le> 53 then Num b
      else let e = n - 53;
               q = m div 2 ^ e;
               r = m mod 2 ^ e;
               q' = (if 2 * r > 2 ^ e \<or> (2 * r = 2 ^ e \<and> odd q) then q + 1 else q);
               v = q' * 2 ^ e
           in if v \<ge> 2 ^ 1024 then (if b < 0 then NegInfinity else PosInfinity)
              else Num (sgn b * v))"

text \<open>ToInt32 of a Number: \<open>NaN\<close> and the infinities give 0.\<close>

definition ToInt32N :: "number \<Rightarrow> int" where
  "ToInt32N v = (case v of Num n \<Rightarrow> ToInt32 n | _ \<Rightarrow> 0)"

text \<open>\<open>a + b\<close> on Numbers.\<close>

definition num_add :: "number \<Rightarrow> number \<Rightarrow> number" where
  "num_add a b =
     (case (a, b) of
        (Num m, Num n) \<Rightarrow> Number_of_BigInt (m + n)
      | (NaN, _) \<Rightarrow> NaN
      | (_, NaN) \<Rightarrow> NaN
      | (PosInfinity, NegInfinity) \<Rightarrow> NaN
      | (NegInfinity, PosInfinity) \<Rightarrow> NaN
      | (PosInfinity, _) \<Rightarrow> PosInfinity
      | (NegInfinity, _) \<Rightarrow> NegInfinity
      | (_, PosInfinity) \<Rightarrow> PosInfinity
      | (_, NegInfinity) \<Rightarrow> NegInfinity)"

subsection \<open>Arrays and the lookup tables\<close>

text \<open>
  A JavaScript array of Numbers is a list of optional values: \<open>None\<close> is a hole, which reads
  as \<open>undefined\<close>, as does every index outside the array. An assignment beyond the end
  extends the array with holes. A negative key would name a property instead of an element
  and leaves the list as it is; the calls that \<open>generateLookupTable\<close> makes write the keys
  0 to 1023 only, and the decoder reads at non-negative keys.
\<close>

type_synonym js_array = "int option list"

definition array_read :: "js_array \<Rightarrow> int \<Rightarrow> int option" where
  "array_read xs k = (if 0 \<le> k \<and> nat k < length xs then xs ! nat k else None)"

definition array_write :: "js_array \<Rightarrow> int \<Rightarrow> int \<Rightarrow> js_array" where
  "array_write xs k v =
     (if k < 0 then xs
      else if nat k < length xs then xs[nat k := Some v]
      else xs @ replicate (nat k - length xs) None @ [Some v])"

text \<open>\<open>S2PosToIJ\<close> is declared in the source and never read.\<close>

definition S2PosToIJ :: "int list list" where
  "S2PosToIJ = [[0, 1, 3, 2], [0, 2, 3, 1], [3, 2, 0, 1], [3, 1, 0, 2]]"

definition S2PosToOrientationMask :: js_array where
  "S2PosToOrientationMask =
     [Some S2SwapMask, Some 0, Some 0, Some (js_or S2SwapMask S2InvertMask)]"

text \<open>
  An operand of a 32-bit operator that may be \<open>undefined\<close>: ToNumber gives \<open>NaN\<close> and ToInt32
  of that is 0. \<open>r[k]\<close> for a Number \<open>r\<close> is a property lookup on a primitive Number, which
  has no such property: the result is \<open>undefined\<close> for every \<open>r\<close> and \<open>k\<close>.
\<close>

definition int32_operand :: "int option \<Rightarrow> int" where
  "int32_operand v = (case v of None \<Rightarrow> 0 | Some n \<Rightarrow> ToInt32 n)"

definition number_index :: "int \<Rightarrow> int \<Rightarrow> int option" where
  "number_index r k = None"

text \<open>The module variables \<open>S2LookupPositions\<close> and \<open>S2LookupIJ\<close>, both \<open>[]\<close> at load time.\<close>

record tables =
  S2LookupPositions :: js_array
  S2LookupIJ :: js_array

definition initialTables :: tables where
  "initialTables = \<lparr>S2LookupPositions = [], S2LookupIJ = []\<rparr>"

text \<open>
  A call that reads or writes the tables returns its result, or the error it threw, together
  with the tables as it left them. \<open>and_then\<close> runs the next statement unless the first threw.
\<close>

type_synonym 'a outcome = "(error + 'a) \<times> tables"

abbreviation and_then :: "unit outcome option \<Rightarrow> (tables \<Rightarrow> 'b outcome option) \<Rightarrow> 'b outcome option" where
  "and_then m f \<equiv>
     Option.bind m (\<lambda>(r, t). case r of Inl e \<Rightarrow> Some (Inl e, t) | Inr u \<Rightarrow> f t)"

text \<open>The two assignments of \<open>generateLookupCell\<close> at \<open>level === S2LookupBits\<close>.\<close>

definition writeLookupCell :: "int \<Rightarrow> int \<Rightarrow> int \<Rightarrow> int \<Rightarrow> int \<Rightarrow> tables \<Rightarrow> tables" where
  "writeLookupCell i j originalOrientation position orientation t =
     (let ij = js_shl i S2LookupBits + j in
      t\<lparr>S2LookupPositions := array_write (S2LookupPositions t)
           (js_shl ij 2 + originalOrientation) (js_shl position 2 + orientation),
        S2LookupIJ := array_write (S2LookupIJ t)
           (js_shl position 2 + originalOrientation) (js_shl ij 2 + orientation)\<rparr>)"

text \<open>
  \<open>generateLookupCell\<close>. The recursion stops only at \<open>level === S2LookupBits\<close>; from a larger
  level it does not return, which is \<open>None\<close>. \<open>var r = S2PosToOrientationMask[orientation]\<close>
  is a Number (or \<open>undefined\<close>, and then \<open>r[0]\<close> throws a \<open>TypeError\<close>), so that \<open>r[0]\<close>
  to \<open>r[3]\<close> are \<open>undefined\<close>. On the calls that \<open>generateLookupTable\<close> makes, the
  sums are sums of integers far below \<open>2^53\<close>, which Number addition computes exactly.
\<close>

partial_function (option) generateLookupCell ::
  "int \<Rightarrow> int \<Rightarrow> int \<Rightarrow> int \<Rightarrow> int \<Rightarrow> int \<Rightarrow> tables \<Rightarrow> unit outcome option" where
  "generateLookupCell level i j originalOrientation position orientation t =
     (if level = S2LookupBits then
        Some (Inr (), writeLookupCell i j originalOrientation position orientation t)
      else
        let level = level + 1;
            i = js_shl i 1;
            j = js_shl j 1;
            position = js_shl position 2
        in case array_read S2PosToOrientationMask orientation of
            None \<Rightarrow> Some (Inl TypeError, t)
          | Some r \<Rightarrow>
              and_then (generateLookupCell level
                  (i + js_shr (int32_operand (number_index r 0)) 1)
                  (j + js_and (int32_operand (number_index r 0)) 1)
                  originalOrientation position
                  (js_xor orientation (int32_operand (array_read S2PosToOrientationMask 0))) t) (\<lambda>t.
              and_then (generateLookupCell level
                  (i + js_shr (int32_operand (number_index r 1)) 1)
                  (j + js_and (int32_operand (number_index r 1)) 1)
                  originalOrientation (position + 1)
                  (js_xor orientation (int32_operand (array_read S2PosToOrientationMask 1))) t) (\<lambda>t.
              and_then (generateLookupCell level
                  (i + js_shr (int32_operand (number_index r 2)) 1)
                  (j + js_and (int32_operand (number_index r 2)) 1)
                  originalOrientation (position + 2)
                  (js_xor orientation (int32_operand (array_read S2PosToOrientationMask 2))) t) (\<lambda>t.
              generateLookupCell level
                  (i + js_shr (int32_operand (number_index r 3)) 1)
                  (j + js_and (int32_operand (number_index r 3)) 1)
                  originalOrientation (position + 3)
                  (js_xor orientation (int32_operand (array_read S2PosToOrientationMask 3))) t))))"

definition generateLookupTable :: "tables \<Rightarrow> unit outcome option" where
  "generateLookupTable t =
     and_then (generateLookupCell 0 0 0 0 0 0 t) (\<lambda>t.
     and_then (generateLookupCell 0 0 0 S2SwapMask 0 S2SwapMask t) (\<lambda>t.
     and_then (generateLookupCell 0 0 0 S2InvertMask 0 S2InvertMask t) (\<lambda>t.
     generateLookupCell 0 0 0 (js_or S2SwapMask S2InvertMask) 0
       (js_or S2SwapMask S2InvertMask) t)))"

subsection \<open>Decoding an identifier\<close>

text \<open>\<open>S2LookupIJ[bits]\<close> with a Number as the key.\<close>

definition array_read_at :: "js_array \<Rightarrow> number \<Rightarrow> int option" where
  "array_read_at xs b = (case b of Num n \<Rightarrow> array_read xs n | _ \<Rightarrow> None)"

text \<open>
  The body of the loop \<open>for (var k = 7; k >= 0; k--)\<close> of \<open>getFaceIJOrientation\<close>, on the
  variables \<open>(i, j, bits)\<close>. Each addend of \<open>i\<close> and of \<open>j\<close> is a 32-bit integer, so these
  eight additions are exact.
\<close>

definition decodeStep :: "js_array \<Rightarrow> int \<Rightarrow> int \<Rightarrow> int \<times> int \<times> number \<Rightarrow> int \<times> int \<times> number" where
  "decodeStep lookupIJ cellId k st =
     (case st of (i, j, bits0) \<Rightarrow>
        let nBits = (if k = 7 then S2MaxLevel - 7 * S2LookupBits else S2LookupBits);
            bits1 = num_add bits0 (Number_of_BigInt
                      (drop_bit (nat (k * 2 * S2LookupBits + 1)) cellId
                         AND js_shl (js_shl 1 (2 * nBits - 1)) 2));
            bits2 = num_add bits1
                      (case array_read_at lookupIJ bits1 of None \<Rightarrow> NaN | Some v \<Rightarrow> Num v);
            i = i + js_shl (js_shr (ToInt32N bits2) (S2LookupBits + 2)) (k * S2LookupBits);
            j = j + js_shl (js_and (js_shr (ToInt32N bits2) 2) (js_shl 1 S2LookupBits - 1))
                      (k * S2LookupBits);
            bits3 = Num (js_and (ToInt32N bits2) (js_or S2SwapMask S2InvertMask))
        in (i, j, bits3))"

text \<open>\<open>if (orientation)\<close> for an argument that is a Number or is left out.\<close>

definition truthy :: "number option \<Rightarrow> bool" where
  "truthy v =
     (case v of None \<Rightarrow> False | Some NaN \<Rightarrow> False | Some (Num n) \<Rightarrow> n \<noteq> 0 | Some _ \<Rightarrow> True)"

text \<open>
  \<open>getFaceIJOrientation(cellId, orientation)\<close>; the result is
  \<open>[i, j, face, orientation]\<close>.
\<close>

definition getFaceIJOrientation ::
  "tables \<Rightarrow> int \<Rightarrow> number option \<Rightarrow> (int \<times> int \<times> number \<times> number option) outcome option" where
  "getFaceIJOrientation t0 cellId orientation =
     and_then
       (if length (S2LookupPositions t0) = 0 then generateLookupTable t0 else Some (Inr (), t0))
       (\<lambda>t.
         let face = Number_of_BigInt (drop_bit S2PositionBits cellId);
             bits0 = Num (js_and (ToInt32N face) S2SwapMask);
             (i, j, bits) = fold (decodeStep (S2LookupIJ t) cellId) [7, 6, 5, 4, 3, 2, 1, 0]
                              (0, 0, bits0);
             orientation' =
               (if truthy orientation then
                  Some (if lsb cellId AND 0x1111111111111110 \<noteq> 0
                        then Num (js_xor (ToInt32N bits) S2SwapMask) else bits)
                else orientation)
         in Some (Inr (i, j, face, orientation'), t))"

text \<open>
  \<open>getFaceSiTi\<close>. In \<open>i ^ (Number(cellId >> BigInt(2)) & 1) ? 2 : 0\<close> the operator \<open>&\<close>
  binds tighter than \<open>^\<close>, and the conditional tests the result of \<open>^\<close> against zero.
\<close>

definition getFaceSiTi :: "tables \<Rightarrow> int \<Rightarrow> (number \<times> int \<times> int) outcome option" where
  "getFaceSiTi t0 cellId =
     (case getFaceIJOrientation t0 cellId None of
        None \<Rightarrow> None
      | Some (Inl e, t) \<Rightarrow> Some (Inl e, t)
      | Some (Inr (i, j, face, orientation), t) \<Rightarrow>
          (case getLevel cellId of
             Inl e \<Rightarrow> Some (Inl e, t)
           | Inr level \<Rightarrow>
               let delta =
                 (if level = 30 then 1
                  else if js_xor i (js_and (ToInt32N (Number_of_BigInt (drop_bit 2 cellId))) 1) \<noteq> 0
                  then 2 else 0)
               in Some (Inr (face, 2 * i + delta, 2 * j + delta), t)))"

subsection \<open>Cube faces\<close>

text \<open>
  \<open>FaceUVtoXYZ\<close> only moves and negates its arguments; negation of a double is exact, so
  the coordinates are taken from any type with \<open>1\<close> and a negation.
\<close>

datatype 'a Cartesian3 = Cartesian3 'a 'a 'a

definition FaceUVtoXYZ :: "number \<Rightarrow> 'a::{one,uminus} \<Rightarrow> 'a \<Rightarrow> 'a Cartesian3" where
  "FaceUVtoXYZ face u v =
     (if face = Num 0 then Cartesian3 1 u v
      else if face = Num 1 then Cartesian3 (- u) 1 v
      else if face = Num 2 then Cartesian3 (- u) (- v) 1
      else if face = Num 3 then Cartesian3 (- 1) (- v) (- u)
      else if face = Num 4 then Cartesian3 v (- 1) (- u)
      else Cartesian3 v u (- 1))"

subsection \<open>The table generator as a sequence of writes\<close>

text \<open>
  \<open>lookupCell_depth n\<close> is \<open>generateLookupCell\<close> started \<open>n\<close> levels above \<open>S2LookupBits\<close>,
  with the recursion on \<open>n\<close>.
\<close>

definition and_then_total :: "unit outcome \<Rightarrow> (tables \<Rightarrow> 'b outcome) \<Rightarrow> 'b outcome" where
  "and_then_total m f = (case m of (Inl e, t) \<Rightarrow> (Inl e, t) | (Inr u, t) \<Rightarrow> f t)"

fun lookupCell_depth :: "nat \<Rightarrow> int \<Rightarrow> int \<Rightarrow> int \<Rightarrow> int \<Rightarrow> int \<Rightarrow> tables \<Rightarrow> unit outcome" where
  "lookupCell_depth 0 i j originalOrientation position orientation t =
     (Inr (), writeLookupCell i j originalOrientation position orientation t)"
| "lookupCell_depth (Suc n) i0 j0 originalOrientation position0 orientation t =
     (let i = js_shl i0 1;
          j = js_shl j0 1;
          position = js_shl position0 2
      in case array_read S2PosToOrientationMask orientation of
          None \<Rightarrow> (Inl TypeError, t)
        | Some r \<Rightarrow>
           and_then_total (lookupCell_depth n
                  (i + js_shr (int32_operand (number_index r 0)) 1)
                  (j + js_and (int32_operand (number_index r 0)) 1)
                  originalOrientation position
                  (js_xor orientation (int32_operand (array_read S2PosToOrientationMask 0))) t) (\<lambda>t.
           and_then_total (lookupCell_depth n
                  (i + js_shr (int32_operand (number_index r 1)) 1)
                  (j + js_and (int32_operand (number_index r 1)) 1)
                  originalOrientation (position + 1)
                  (js_xor orientation (int32_operand (array_read S2PosToOrientationMask 1))) t) (\<lambda>t.
           and_then_total (lookupCell_depth n
                  (i + js_shr (int32_operand (number_index r 2)) 1)
                  (j + js_and (int32_operand (number_index r 2)) 1)
                  originalOrientation (position + 2)
                  (js_xor orientation (int32_operand (array_read S2PosToOrientationMask 2))) t) (\<lambda>t.
           lookupCell_depth n
                  (i + js_shr (int32_operand (number_index r 3)) 1)
                  (j + js_and (int32_operand (number_index r 3)) 1)
                  originalOrientation (position + 3)
                  (js_xor orientation (int32_operand (array_read S2PosToOrientationMask 3))) t))))"

text \<open>
  With \<open>i = j = 0\<close> the recursion is this sequence of writes: \<open>r[k]\<close> being \<open>undefined\<close>,
  \<open>i\<close> and \<open>j\<close> stay 0, and every cell at the last level writes the forward table at the key
  \<open>originalOrientation\<close> (written \<open>oo\<close>). \<open>orientationAt n orientation d\<close> is the orientation
  that reaches the \<open>d\<close>-th of the \<open>4^n\<close> cells below a cell of the given orientation.
\<close>

fun cellWrites :: "nat \<Rightarrow> int \<Rightarrow> int \<Rightarrow> int \<Rightarrow> tables \<Rightarrow> tables" where
  "cellWrites 0 oo p orientation t =
     t\<lparr>S2LookupPositions := array_write (S2LookupPositions t) oo (4 * p + orientation),
       S2LookupIJ := array_write (S2LookupIJ t) (4 * p + oo) orientation\<rparr>"
| "cellWrites (Suc n) oo p orientation t =
     cellWrites n oo (4 * p + 3) (orientation XOR 3)
       (cellWrites n oo (4 * p + 2) orientation
         (cellWrites n oo (4 * p + 1) orientation
           (cellWrites n oo (4 * p) (orientation XOR 1) t)))"

fun childOrientation :: "int \<Rightarrow> nat \<Rightarrow> int" where
  "childOrientation orientation c =
     (if c = 0 then orientation XOR 1 else if c = 3 then orientation XOR 3 else orientation)"

fun orientationAt :: "nat \<Rightarrow> int \<Rightarrow> int \<Rightarrow> int" where
  "orientationAt 0 orientation d = orientation"
| "orientationAt (Suc n) orientation d =
     orientationAt n (childOrientation orientation (nat (d div 4 ^ n))) (d mod 4 ^ n)"

definition generatedTables :: tables where
  "generatedTables =
     cellWrites 4 3 0 3 (cellWrites 4 2 0 2 (cellWrites 4 1 0 1 (cellWrites 4 0 0 0 initialTables)))"

section \<open>The identifier codec: lemmas\<close>

subsection \<open>The lowest set bit\<close>

lemma lsb_odd: "odd k \<Longrightarrow> lsb k = 1"
proof -
  assume "odd k"
  then obtain b where k: "k = 2 * b + 1" by (elim oddE)
  have "(- (2 * b) - 1) div 2 = NOT b"
    by (simp add: not_int_def)
  then have "(2 * b + 1) AND (- (2 * b + 1)) = 1"
    by (subst and_int.rec) simp
  then show ?thesis
    by (simp add: lsb_def k flip: minus_eq_not_plus_1)
qed

lemma lsb_double: "lsb (2 * k) = 2 * lsb k"
proof -
  have "- (2 * k) div 2 = - k" by simp
  then have "(2 * k) AND (- (2 * k)) = 2 * (k AND (- k))"
    by (subst and_int.rec) simp
  then show ?thesis
    by (simp add: lsb_def flip: minus_eq_not_plus_1)
qed

lemma lsb_repr: "lsb ((2 * a + 1) * 2 ^ p) = 2 ^ p"
proof (induction p)
  case 0
  show ?case by (simp add: lsb_odd)
next
  case (Suc p)
  have "lsb ((2 * a + 1) * 2 ^ Suc p) = lsb (2 * ((2 * a + 1) * 2 ^ p))"
    by (simp add: mult.commute mult.left_commute)
  also have "\<dots> = 2 * 2 ^ p"
    by (simp only: lsb_double Suc.IH)
  finally show ?case by simp
qed

lemma odd_even_repr: "k \<noteq> 0 \<Longrightarrow> \<exists>a p. k = (2 * a + 1) * 2 ^ p" for k :: int
proof (induction "nat \<bar>k\<bar>" arbitrary: k rule: less_induct)
  case less
  show ?case
  proof (cases "even k")
    case False
    then obtain a where "k = 2 * a + 1" by (elim oddE)
    then have "k = (2 * a + 1) * 2 ^ 0" by simp
    then show ?thesis by blast
  next
    case True
    then obtain h where h: "k = 2 * h" by (elim evenE)
    with less.prems have "h \<noteq> 0" "nat \<bar>h\<bar> < nat \<bar>k\<bar>" by auto
    from less.hyps [OF this(2) this(1)] obtain a p where "h = (2 * a + 1) * 2 ^ p" by blast
    with h have "k = (2 * a + 1) * 2 ^ Suc p" by simp
    then show ?thesis by blast
  qed
qed

lemma getLevel_loop_repr: "getLevel_loop ((2 * a + 1) * 2 ^ p) n = n + int p"
proof (induction p arbitrary: n)
  case 0
  show ?case by (subst getLevel_loop.simps) (simp add: and_one_eq)
next
  case (Suc p)
  have nz: "(2 * a + 1) * 2 ^ Suc p \<noteq> (0::int)" by simp presburger
  have ev: "((2 * a + 1) * 2 ^ Suc p) AND 1 = (0::int)" by (simp add: and_one_eq)
  have sh: "drop_bit 1 ((2 * a + 1) * 2 ^ Suc p) = (2 * a + 1) * (2::int) ^ p"
    by (simp add: drop_bit_eq_div)
  show ?case
    by (subst getLevel_loop.simps) (simp only: nz ev sh Suc.IH, simp)
qed

lemma Least_bit_repr: "(LEAST n. bit ((2 * a + 1) * 2 ^ p :: int) n) = p"
proof (rule Least_equality)
  show "bit ((2 * a + 1) * 2 ^ p :: int) p"
    by (simp add: bit_iff_odd)
next
  fix q assume "bit ((2 * a + 1) * 2 ^ p :: int) q"
  then show "p \<le> q"
    by (metis bit_push_bit_iff push_bit_eq_mult)
qed

subsection \<open>The mask of the level markers\<close>

lemma bit_quad_step: "bit (1 + 4 * m :: int) p \<longleftrightarrow> p = 0 \<or> (2 \<le> p \<and> bit m (p - 2))"
proof (cases p)
  case 0
  then show ?thesis by (simp add: bit_0)
next
  case (Suc q)
  show ?thesis
  proof (cases q)
    case 0
    have "(1 + 4 * m) div 2 = 2 * m" by simp
    with Suc 0 show ?thesis by (simp add: bit_Suc bit_0)
  next
    case (Suc r)
    have "(1 + 4 * m) div 2 div 2 = m" by simp
    with \<open>p = Suc q\<close> Suc show ?thesis by (simp add: bit_Suc)
  qed
qed

lemma bit_quad_sum: "bit ((4 ^ Suc n - 1) div 3 :: int) p \<longleftrightarrow> even p \<and> p \<le> 2 * n"
proof (induction n arbitrary: p)
  case 0
  show ?case by (auto simp add: bit_1_iff)
next
  case (Suc n)
  have "3 dvd (4 ^ Suc n - 1 :: int)"
    by (induction n) (simp_all, presburger)
  then obtain c where c: "(4::int) ^ Suc n - 1 = 3 * c" by (elim dvdE)
  then have "(4::int) ^ Suc (Suc n) - 1 = 3 * (1 + 4 * c)" by simp
  then have "((4::int) ^ Suc (Suc n) - 1) div 3 = 1 + 4 * ((4 ^ Suc n - 1) div 3)"
    using c by simp
  then have "bit (((4::int) ^ Suc (Suc n) - 1) div 3) p
      \<longleftrightarrow> p = 0 \<or> (2 \<le> p \<and> even (p - 2) \<and> p - 2 \<le> 2 * n)"
    using Suc.IH [of "p - 2"] by (simp only: bit_quad_step)
  also have "\<dots> \<longleftrightarrow> even p \<and> p \<le> 2 * Suc n"
    by (cases "2 \<le> p") (auto simp add: less_2_cases_iff not_le)
  finally show ?case .
qed

lemma bit_level_mask: "bit (0x1555555555555555 :: int) p \<longleftrightarrow> even p \<and> p \<le> 60"
  using bit_quad_sum [of 30 p] by simp

lemma exp_and_level_mask:
  "(2 ^ p AND (0x1555555555555555 :: int) \<noteq> 0) \<longleftrightarrow> even p \<and> p \<le> 60"
  using and_exp_eq_0_iff_not_bit [of "0x1555555555555555 :: int" p]
  by (simp add: bit_level_mask and.commute)

subsection \<open>Valid identifiers\<close>

lemma repr_pos: "0 < (2 * a + 1) * (2::int) ^ p \<longleftrightarrow> 0 \<le> a"
  by (simp add: zero_less_mult_iff)

lemma isValidId_repr:
  "isValidId ((2 * a + 1) * 2 ^ p) \<longleftrightarrow>
     0 \<le> a \<and> (2 * a + 1) * 2 ^ p < 6 * 2 ^ 61 \<and> even p \<and> p \<le> 60"
proof -
  define k where "k = (2 * a + 1) * (2::int) ^ p"
  have f: "(5 < drop_bit 61 k) = (\<not> k < 6 * 2 ^ 61)"
    by (simp add: drop_bit_eq_div) linarith
  have l: "k AND (NOT k + 1) = 2 ^ p"
    using lsb_repr [of a p] by (simp add: lsb_def k_def)
  have n: "(k \<le> 0) = (\<not> 0 \<le> a)"
    using repr_pos [of a p] unfolding k_def by linarith
  have m: "((2::int) ^ p AND 0x1555555555555555 = 0) = (\<not> (even p \<and> p \<le> 60))"
    using exp_and_level_mask [of p] by blast
  have "isValidId k \<longleftrightarrow> 0 \<le> a \<and> k < 6 * 2 ^ 61 \<and> even p \<and> p \<le> 60"
    unfolding isValidId_def Let_def l S2PositionBits_def S2MaxLevel_def
    by (simp only: n m) (auto simp add: f)
  then show ?thesis by (simp only: k_def)
qed

lemma isValidId_reprE:
  assumes "isValidId k"
  obtains a p where "k = (2 * a + 1) * 2 ^ p" "0 \<le> a" "k < 6 * 2 ^ 61" "even p" "p \<le> 60"
proof -
  from assms have "k \<noteq> 0" by (auto simp add: isValidId_def)
  then obtain a p where k: "k = (2 * a + 1) * 2 ^ p"
    using odd_even_repr by blast
  with assms isValidId_repr [of a p] that show thesis by simp
qed

lemma js_shr_1: "0 \<le> n \<Longrightarrow> n < 2 ^ 31 \<Longrightarrow> js_shr n 1 = n div 2"
  by (simp add: js_shr_def ToInt32_def signed_take_bit_int_eq_self drop_bit_eq_div)

lemma getLevel_repr:
  assumes "isValidId ((2 * a + 1) * 2 ^ p)"
  shows "getLevel ((2 * a + 1) * 2 ^ p) = Inr (30 - int (p div 2))"
proof -
  from assms have "p \<le> 60" by (simp add: isValidId_repr)
  then have "js_shr (int p) 1 = int p div 2"
    by (intro js_shr_1) simp_all
  then show ?thesis
    using assms by (simp add: getLevel_def getLevel_loop_repr S2MaxLevel_def zdiv_int)
qed

lemma isValidId_face:
  "isValidId ((2 * a + 1) * 2 ^ p) \<longleftrightarrow> 0 \<le> a \<and> a < 6 * 2 ^ (60 - p) \<and> even p \<and> p \<le> 60"
proof (cases "p \<le> 60")
  case False
  then show ?thesis by (simp add: isValidId_repr)
next
  case True
  define Y :: int where "Y = 2 ^ (60 - p)"
  have "(2::int) ^ 61 = 2 ^ (Suc (60 - p) + p)"
    using True by simp
  then have e: "(6::int) * 2 ^ 61 = (12 * Y) * 2 ^ p"
    by (simp only: power_add power_Suc Y_def)
  have "(2 * a + 1) * 2 ^ p < (12 * Y) * 2 ^ p \<longleftrightarrow> 2 * a + 1 < 12 * Y"
    by (rule mult_less_cancel_right_pos) simp
  also have "\<dots> \<longleftrightarrow> a < 6 * Y" by presburger
  finally show ?thesis
    unfolding isValidId_repr e by (simp add: Y_def)
qed

lemma child_id:
  assumes "2 \<le> p"
  shows "(2 * a + 1) * 2 ^ p + (2 * i + 1 - 4) * drop_bit 2 (lsb ((2 * a + 1) * 2 ^ p))
    = (2 * (4 * a + i) + 1) * 2 ^ (p - 2)"
proof -
  from assms obtain q where p: "p = Suc (Suc q)"
    by (metis add_2_eq_Suc le_Suc_ex)
  have "drop_bit 2 ((2::int) ^ p) = 2 ^ q"
    by (simp add: p drop_bit_eq_div)
  then have "drop_bit 2 (lsb ((2 * a + 1) * 2 ^ p)) = (2::int) ^ q"
    by (simp only: lsb_repr)
  then show ?thesis
    by (simp add: p algebra_simps)
qed

lemma and_minus_exp: "k AND (NOT (2 ^ n) + 1) = k div 2 ^ n * 2 ^ n" for k :: int
proof -
  have "k AND NOT (mask n) = push_bit n (drop_bit n k)"
    by (rule bit_eqI) (auto simp add: bit_simps)
  moreover have "NOT ((2::int) ^ n) + 1 = NOT (mask n)"
    by (simp only: minus_exp_eq_not_mask flip: minus_eq_not_plus_1)
  ultimately show ?thesis
    by (simp add: push_bit_eq_mult drop_bit_eq_div)
qed

lemma parent_id:
  "((2 * a + 1) * 2 ^ p AND (NOT (push_bit 2 (lsb ((2 * a + 1) * 2 ^ p))) + 1))
      OR push_bit 2 (lsb ((2 * a + 1) * 2 ^ p))
    = (2 * (a div 4) + 1) * 2 ^ (p + 2)"
proof -
  have n: "push_bit 2 (lsb ((2 * a + 1) * 2 ^ p)) = (2::int) ^ (p + 2)"
    by (simp add: lsb_repr push_bit_eq_mult)
  have "(2 * a + 1) * 2 ^ p div 2 ^ (p + 2) = (2 * a + 1) div (4::int)"
    by (simp add: power_add)
  also have "\<dots> = a div 2"
  proof -
    have "(2 * a + 1) div 4 = (2 * a + 1) div 2 div 2"
      using zdiv_zmult2_eq [of 2 "2 * a + 1" 2] by simp
    then show ?thesis by simp
  qed
  finally have d: "(2 * a + 1) * 2 ^ p div 2 ^ (p + 2) = a div 2" .
  have o: "a div 2 OR 1 = 2 * (a div 4) + 1"
  proof -
    define b where "b = a div 2"
    have q: "a div 4 = b div 2"
      using zdiv_zmult2_eq [of 2 a 2] by (simp add: b_def)
    have "b OR 1 = 2 * (b div 2) + 1"
      by (cases "even b") (auto simp add: or_one_eq elim!: evenE oddE)
    then show ?thesis by (simp only: q b_def)
  qed
  have "a div 2 * 2 ^ (p + 2) OR 2 ^ (p + 2)
      = push_bit (p + 2) (a div 2) OR push_bit (p + 2) 1"
    by (simp only: push_bit_eq_mult mult_1)
  also have "\<dots> = push_bit (p + 2) (a div 2 OR 1)"
    by (simp only: push_bit_or)
  also have "\<dots> = (2 * (a div 4) + 1) * 2 ^ (p + 2)"
    by (simp only: o push_bit_eq_mult)
  finally show ?thesis
    by (simp only: n and_minus_exp d)
qed

lemma valid_child:
  assumes "isValidId ((2 * a + 1) * 2 ^ p)" "2 \<le> p" "0 \<le> i" "i \<le> 3"
  shows "isValidId ((2 * (4 * a + i) + 1) * 2 ^ (p - 2))"
proof -
  define Y :: int where "Y = 2 ^ (60 - p)"
  from assms(1) have v: "0 \<le> a" "a < 6 * Y" "even p" "p \<le> 60"
    by (simp_all add: isValidId_face Y_def)
  have "60 - (p - 2) = Suc (Suc (60 - p))" using assms(2) v(4) by simp
  then have "(2::int) ^ (60 - (p - 2)) = 4 * Y" by (simp add: Y_def)
  moreover have "4 * a + i < 6 * (4 * Y)" using v(2) assms(4) by simp
  moreover have "even (p - 2)" using v(3) assms(2) by simp
  ultimately show ?thesis
    unfolding isValidId_face using v(1,4) assms(3) by simp
qed

lemma valid_parent:
  assumes "isValidId ((2 * a + 1) * 2 ^ p)" "p \<le> 58"
  shows "isValidId ((2 * (a div 4) + 1) * 2 ^ (p + 2))"
proof -
  define Z :: int where "Z = 2 ^ (58 - p)"
  have "60 - p = Suc (Suc (58 - p))" using assms(2) by simp
  then have "(2::int) ^ (60 - p) = 4 * Z" by (simp add: Z_def)
  with assms(1) have v: "0 \<le> a" "a < 6 * (4 * Z)" "even p"
    by (simp_all add: isValidId_face)
  have 1: "a div 4 < 6 * Z" using v(2) by presburger
  have 2: "0 \<le> a div 4" using v(1) by presburger
  have 3: "60 - (p + 2) = 58 - p" by simp
  have 4: "even (p + 2)" using v(3) by simp
  have 5: "p + 2 \<le> 60" using assms(2) by simp
  show ?thesis
    unfolding isValidId_face 3 using 1 2 4 5 unfolding Z_def by blast
qed

section \<open>Cells: lemmas\<close>

lemma S2Cell_valid:
  "isValidId ((2 * a + 1) * 2 ^ p) \<Longrightarrow>
   S2Cell True ((2 * a + 1) * 2 ^ p)
     = Inr \<lparr>this_cellId = (2 * a + 1) * 2 ^ p, this_level = 30 - int (p div 2)\<rparr>"
  by (simp add: S2Cell_def getLevel_repr)

lemma S2Cell_InrE:
  assumes "S2Cell sb cellId = Inr c"
  obtains a p where "sb" "cellId = (2 * a + 1) * 2 ^ p" "isValidId ((2 * a + 1) * 2 ^ p)"
    "even p" "p \<le> 60" "0 \<le> a"
    "c = \<lparr>this_cellId = (2 * a + 1) * 2 ^ p, this_level = 30 - int (p div 2)\<rparr>"
proof -
  from assms have s: "sb" and v: "isValidId cellId"
    by (auto simp add: S2Cell_def split: if_splits)
  from v obtain a p where k: "cellId = (2 * a + 1) * 2 ^ p" "0 \<le> a" "even p" "p \<le> 60"
    by (elim isValidId_reprE)
  from v k(1) have v': "isValidId ((2 * a + 1) * 2 ^ p)" by simp
  from assms s have "c = \<lparr>this_cellId = (2 * a + 1) * 2 ^ p, this_level = 30 - int (p div 2)\<rparr>"
    unfolding k(1) by (simp add: S2Cell_valid [OF v'])
  with s k v' that show thesis by blast
qed

lemma getChild_valid:
  assumes "isValidId ((2 * a + 1) * 2 ^ p)" "2 \<le> p" "0 \<le> index" "index \<le> 3"
  shows "getChild True \<lparr>this_cellId = (2 * a + 1) * 2 ^ p, this_level = 30 - int (p div 2)\<rparr> index
    = Inr \<lparr>this_cellId = (2 * (4 * a + index) + 1) * 2 ^ (p - 2),
           this_level = 30 - int ((p - 2) div 2)\<rparr>"
proof -
  have 1: "\<not> (index < 0 \<or> index > 3)" using assms(3,4) by simp
  have 2: "30 - int (p div 2) \<noteq> 30" using assms(2) by simp
  show ?thesis
    unfolding getChild_def Let_def s2cell.select_convs
    by (simp only: 1 2 if_False child_id [OF assms(2)] S2Cell_valid [OF valid_child [OF assms]])
qed

lemma getParent_valid:
  assumes "isValidId ((2 * a + 1) * 2 ^ p)" "p \<le> 58"
  shows "getParent True \<lparr>this_cellId = (2 * a + 1) * 2 ^ p, this_level = 30 - int (p div 2)\<rparr>
    = Inr \<lparr>this_cellId = (2 * (a div 4) + 1) * 2 ^ (p + 2),
           this_level = 30 - int ((p + 2) div 2)\<rparr>"
proof -
  have 1: "30 - int (p div 2) \<noteq> 0" using assms(2) by simp
  show ?thesis
    unfolding getParent_def Let_def s2cell.select_convs
    by (simp only: 1 if_False parent_id S2Cell_valid [OF valid_parent [OF assms]])
qed

lemma level_lt_30: "even p \<Longrightarrow> 30 - int (p div 2) < 30 \<Longrightarrow> 2 \<le> p"
  by presburger

lemma level_gt_0: "even p \<Longrightarrow> 0 < 30 - int (p div 2) \<Longrightarrow> p \<le> 58"
  by presburger

lemma S2Cell_InrD:
  assumes "S2Cell sb cellId = Inr c"
  obtains a p where "sb = True" "cellId = (2 * a + 1) * 2 ^ p" "isValidId ((2 * a + 1) * 2 ^ p)"
    "c = \<lparr>this_cellId = (2 * a + 1) * 2 ^ p, this_level = 30 - int (p div 2)\<rparr>"
    "0 < this_level c \<longrightarrow> p \<le> 58" "this_level c < 30 \<longrightarrow> 2 \<le> p"
proof -
  from assms obtain a p where *: "sb" "cellId = (2 * a + 1) * 2 ^ p"
    "isValidId ((2 * a + 1) * 2 ^ p)" "even p"
    "c = \<lparr>this_cellId = (2 * a + 1) * 2 ^ p, this_level = 30 - int (p div 2)\<rparr>"
    by (elim S2Cell_InrE)
  have l: "this_level c = 30 - int (p div 2)" by (simp add: *(5))
  have "p \<le> 58" if "0 < this_level c"
    using that *(4) unfolding l by (intro level_gt_0)
  moreover have "2 \<le> p" if "this_level c < 30"
    using that *(4) unfolding l by (intro level_lt_30)
  ultimately show thesis using * that by simp
qed

section \<open>Properties of the identifier codec\<close>

text \<open>
  Claim C3. \<open>isValidId\<close> answers false for \<open>cellId \<le> 0\<close>, false when the face bits
  \<open>cellId >> 61\<close> exceed 5, false when the lowest set bit of \<open>cellId\<close> is not a bit of the mask
  \<open>0x1555555555555555\<close>, and true in every other case. The lowest set bit is stated apart
  from the code's \<open>cellId & (~cellId + 1)\<close>, as \<open>2\<close> to the least position that holds a
  bit. The statement holds for every \<open>BigInt\<close>, the 64-bit values among them.
\<close>

theorem isValidId_cases:
  "isValidId cellId \<longleftrightarrow>
     0 < cellId \<and> drop_bit 61 cellId \<le> 5
       \<and> (2 ^ (LEAST n. bit cellId n) AND 0x1555555555555555) \<noteq> (0::int)"
proof (cases "cellId \<le> 0")
  case True
  then show ?thesis by (simp add: isValidId_def)
next
  case False
  then have "cellId \<noteq> 0" by simp
  then obtain a p where k: "cellId = (2 * a + 1) * 2 ^ p"
    using odd_even_repr by blast
  have "cellId AND (NOT cellId + 1) = 2 ^ p"
    using lsb_repr [of a p] by (simp add: lsb_def k)
  moreover have "(LEAST n. bit cellId n) = p"
    unfolding k by (rule Least_bit_repr)
  ultimately show ?thesis
    using False by (auto simp add: isValidId_def Let_def S2PositionBits_def S2MaxLevel_def)
qed

text \<open>
  Claim C4. For a valid identifier, \<open>getLevel\<close> returns 30 minus half the position of the
  lowest set bit, counted from 0; the result lies in \<open>[0, 30]\<close>; position 60 gives level 0
  and position 0 gives level 30.
\<close>

theorem getLevel_lowest_set_bit:
  assumes "isValidId cellId"
  shows "getLevel cellId = Inr (30 - int ((LEAST n. bit cellId n) div 2))
    \<and> 0 \<le> 30 - int ((LEAST n. bit cellId n) div 2)
    \<and> 30 - int ((LEAST n. bit cellId n) div 2) \<le> 30
    \<and> ((LEAST n. bit cellId n) = 60 \<longrightarrow> getLevel cellId = Inr 0)
    \<and> ((LEAST n. bit cellId n) = 0 \<longrightarrow> getLevel cellId = Inr 30)"
proof -
  from assms obtain a p where k: "cellId = (2 * a + 1) * 2 ^ p" and p: "p \<le> 60"
    by (elim isValidId_reprE)
  have l: "(LEAST n. bit cellId n) = p"
    unfolding k by (rule Least_bit_repr)
  have g: "getLevel cellId = Inr (30 - int (p div 2))"
    using assms unfolding k by (rule getLevel_repr)
  from p have "int (p div 2) \<le> 30" by simp
  then show ?thesis
    unfolding l g by auto
qed

theorem getLevel_lowest_set_bit_witness:
  "isValidId (2 ^ 60) \<and> getLevel (2 ^ 60) = Inr 0 \<and> isValidId 1 \<and> getLevel 1 = Inr 30"
proof -
  have v: "isValidId (2 ^ 60)" "isValidId 1"
    using isValidId_repr [of 0 60] isValidId_repr [of 0 0] by simp_all
  have l: "(LEAST n. bit (2 ^ 60 :: int) n) = 60" "(LEAST n. bit (1 :: int) n) = 0"
    using Least_bit_repr [of 0 60] Least_bit_repr [of 0 0] by simp_all
  from getLevel_lowest_set_bit [OF v(1)] getLevel_lowest_set_bit [OF v(2)] l v
  show ?thesis by simp
qed

text \<open>
  Claim C2. For a cell \<open>c\<close> built by the constructor, of a level below 30, and an index in
  \<open>{0, 1, 2, 3}\<close>, \<open>getChild\<close> returns a cell and \<open>getParent\<close> of that cell is \<open>c\<close>
  again: the same identifier (and the same level).
\<close>

theorem getParent_getChild:
  assumes "S2Cell sb cellId = Inr c" "this_level c < 30" "0 \<le> index" "index \<le> 3"
  shows "\<exists>child. getChild sb c index = Inr child \<and> getParent sb child = Inr c"
proof -
  from assms(1) obtain a p where sb: "sb = True" and v: "isValidId ((2 * a + 1) * 2 ^ p)"
    and c: "c = \<lparr>this_cellId = (2 * a + 1) * 2 ^ p, this_level = 30 - int (p div 2)\<rparr>"
    and p2: "this_level c < 30 \<longrightarrow> 2 \<le> p"
    by (elim S2Cell_InrD)
  from p2 assms(2) have p2: "2 \<le> p" by simp
  from v have "p \<le> 60" by (simp add: isValidId_repr)
  define q where "q = p - 2"
  have q: "q + 2 = p" "q \<le> 58" using p2 \<open>p \<le> 60\<close> by (simp_all add: q_def)
  have d: "(4 * a + index) div 4 = a" using assms(3,4) by simp
  have ch: "getChild sb c index
      = Inr \<lparr>this_cellId = (2 * (4 * a + index) + 1) * 2 ^ q, this_level = 30 - int (q div 2)\<rparr>"
    unfolding sb c q_def using v p2 assms(3,4) by (rule getChild_valid)
  have "isValidId ((2 * (4 * a + index) + 1) * 2 ^ q)"
    unfolding q_def using v p2 assms(3,4) by (rule valid_child)
  from getParent_valid [OF this q(2)]
  have "getParent sb \<lparr>this_cellId = (2 * (4 * a + index) + 1) * 2 ^ q,
      this_level = 30 - int (q div 2)\<rparr> = Inr c"
    unfolding sb c by (simp only: d q(1))
  with ch show ?thesis by simp
qed

theorem getParent_getChild_witness:
  "S2Cell True 1024 = Inr \<lparr>this_cellId = 1024, this_level = 25\<rparr>
   \<and> (\<exists>child. getChild True \<lparr>this_cellId = 1024, this_level = 25\<rparr> 2 = Inr child
         \<and> getParent True child = Inr \<lparr>this_cellId = 1024, this_level = 25\<rparr>)"
proof -
  have v: "isValidId ((2 * 0 + 1) * 2 ^ 10)"
    unfolding isValidId_repr by simp
  have c: "S2Cell True 1024 = Inr \<lparr>this_cellId = 1024, this_level = 25\<rparr>"
    using S2Cell_valid [OF v] by simp
  from getParent_getChild [OF c, of 2] c show ?thesis by simp
qed

text \<open>
  Claim C5. For a cell \<open>c\<close> built by the constructor: if its level is above 0, the level of
  the identifier of \<open>getParent(c)\<close> is one less; if its level is below 30, the level of the
  identifier of \<open>getChild(c, 0)\<close> is one more.
\<close>

theorem getLevel_getParent_getChild:
  assumes "S2Cell sb cellId = Inr c"
  shows "(0 < this_level c \<longrightarrow>
            (\<exists>parent. getParent sb c = Inr parent
               \<and> getLevel (this_cellId parent) = Inr (this_level c - 1)))
       \<and> (this_level c < 30 \<longrightarrow>
            (\<exists>child. getChild sb c 0 = Inr child
               \<and> getLevel (this_cellId child) = Inr (this_level c + 1)))"
proof -
  from assms(1) obtain a p where sb: "sb = True" and v: "isValidId ((2 * a + 1) * 2 ^ p)"
    and c: "c = \<lparr>this_cellId = (2 * a + 1) * 2 ^ p, this_level = 30 - int (p div 2)\<rparr>"
    and p58: "0 < this_level c \<longrightarrow> p \<le> 58" and p2: "this_level c < 30 \<longrightarrow> 2 \<le> p"
    by (elim S2Cell_InrD)
  have up: "\<exists>parent. getParent sb c = Inr parent
      \<and> getLevel (this_cellId parent) = Inr (this_level c - 1)" if "0 < this_level c"
  proof -
    from that p58 have p58: "p \<le> 58" by simp
    have "getLevel ((2 * (a div 4) + 1) * 2 ^ (p + 2)) = Inr (30 - int ((p + 2) div 2))"
      using valid_parent [OF v p58] by (rule getLevel_repr)
    moreover have "30 - int ((p + 2) div 2) = 30 - int (p div 2) - 1"
      by simp
    ultimately show ?thesis
      unfolding sb c getParent_valid [OF v p58] by (simp only: s2cell.select_convs) simp
  qed
  have down: "\<exists>child. getChild sb c 0 = Inr child
      \<and> getLevel (this_cellId child) = Inr (this_level c + 1)" if "this_level c < 30"
  proof -
    from that p2 have p2: "2 \<le> p" by simp
    have "getLevel ((2 * (4 * a + 0) + 1) * 2 ^ (p - 2)) = Inr (30 - int ((p - 2) div 2))"
      using valid_child [OF v p2, of 0] by (intro getLevel_repr) simp
    moreover have "30 - int ((p - 2) div 2) = 30 - int (p div 2) + 1"
      using p2 by presburger
    moreover have "getChild True \<lparr>this_cellId = (2 * a + 1) * 2 ^ p,
        this_level = 30 - int (p div 2)\<rparr> 0
      = Inr \<lparr>this_cellId = (2 * (4 * a + 0) + 1) * 2 ^ (p - 2),
           this_level = 30 - int ((p - 2) div 2)\<rparr>"
      using v p2 by (rule getChild_valid) simp_all
    ultimately show ?thesis
      unfolding sb c by (simp only: s2cell.select_convs) simp
  qed
  from up down show ?thesis by blast
qed

theorem getLevel_getParent_getChild_witness:
  "S2Cell True 1024 = Inr \<lparr>this_cellId = 1024, this_level = 25\<rparr>
   \<and> (\<exists>parent. getParent True \<lparr>this_cellId = 1024, this_level = 25\<rparr> = Inr parent
         \<and> getLevel (this_cellId parent) = Inr 24)
   \<and> (\<exists>child. getChild True \<lparr>this_cellId = 1024, this_level = 25\<rparr> 0 = Inr child
         \<and> getLevel (this_cellId child) = Inr 26)"
proof -
  have v: "isValidId ((2 * 0 + 1) * 2 ^ 10)"
    unfolding isValidId_repr by simp
  have c: "S2Cell True 1024 = Inr \<lparr>this_cellId = 1024, this_level = 25\<rparr>"
    using S2Cell_valid [OF v] by simp
  from getLevel_getParent_getChild [OF c] c show ?thesis by simp
qed

text \<open>
  Claim C10. Navigation keeps identifiers valid. For a cell built by the constructor from a
  valid identifier, the identifier that \<open>getChild\<close> computes (any index in \<open>[0, 3]\<close>, level
  below 30) and the one that \<open>getParent\<close> computes (level above 0) satisfy \<open>isValidId\<close>, so
  the constructor called on them returns a cell.
\<close>

theorem navigation_preserves_isValidId:
  assumes "S2Cell sb cellId = Inr c"
  shows "(this_level c < 30 \<and> 0 \<le> index \<and> index \<le> 3 \<longrightarrow>
            (\<exists>child. getChild sb c index = Inr child \<and> isValidId (this_cellId child)
               \<and> this_cellId child = cellId + (2 * index + 1 - 4) * drop_bit 2 (lsb cellId)))
       \<and> (0 < this_level c \<longrightarrow>
            (\<exists>parent. getParent sb c = Inr parent \<and> isValidId (this_cellId parent)
               \<and> this_cellId parent
                   = (cellId AND (NOT (push_bit 2 (lsb cellId)) + 1)) OR push_bit 2 (lsb cellId)))"
proof -
  from assms(1) obtain a p where sb: "sb = True" and k: "cellId = (2 * a + 1) * 2 ^ p"
    and v: "isValidId ((2 * a + 1) * 2 ^ p)"
    and c: "c = \<lparr>this_cellId = (2 * a + 1) * 2 ^ p, this_level = 30 - int (p div 2)\<rparr>"
    and p58: "0 < this_level c \<longrightarrow> p \<le> 58" and p2: "this_level c < 30 \<longrightarrow> 2 \<le> p"
    by (elim S2Cell_InrD)
  have down: "\<exists>child. getChild sb c index = Inr child \<and> isValidId (this_cellId child)
      \<and> this_cellId child = cellId + (2 * index + 1 - 4) * drop_bit 2 (lsb cellId)"
    if "this_level c < 30" "0 \<le> index" "index \<le> 3"
  proof -
    from that(1) p2 have p2: "2 \<le> p" by simp
    show ?thesis
      unfolding sb c k getChild_valid [OF v p2 that(2,3)] child_id [OF p2]
      using valid_child [OF v p2 that(2,3)] by simp
  qed
  have up: "\<exists>parent. getParent sb c = Inr parent \<and> isValidId (this_cellId parent)
      \<and> this_cellId parent
          = (cellId AND (NOT (push_bit 2 (lsb cellId)) + 1)) OR push_bit 2 (lsb cellId)"
    if "0 < this_level c"
  proof -
    from that p58 have p58: "p \<le> 58" by simp
    show ?thesis
      unfolding sb c k getParent_valid [OF v p58] parent_id
      using valid_parent [OF v p58] by simp
  qed
  from up down show ?thesis by blast
qed

theorem navigation_preserves_isValidId_witness:
  "S2Cell True 1024 = Inr \<lparr>this_cellId = 1024, this_level = 25\<rparr>
   \<and> (\<exists>child. getChild True \<lparr>this_cellId = 1024, this_level = 25\<rparr> 3 = Inr child
         \<and> isValidId (this_cellId child))
   \<and> (\<exists>parent. getParent True \<lparr>this_cellId = 1024, this_level = 25\<rparr> = Inr parent
         \<and> isValidId (this_cellId parent))"
proof -
  have v: "isValidId ((2 * 0 + 1) * 2 ^ 10)"
    unfolding isValidId_repr by simp
  have c: "S2Cell True 1024 = Inr \<lparr>this_cellId = 1024, this_level = 25\<rparr>"
    using S2Cell_valid [OF v] by simp
  from navigation_preserves_isValidId [OF c, of 3] c show ?thesis by auto
qed

text \<open>
  Claim C8. \<open>getChild\<close> on a cell of level 30 fails, with the error of a leaf cell when the
  index is in \<open>[0, 3]\<close>; \<open>getParent\<close> on a cell of level 0 fails with the error of a root
  cell; \<open>getChild\<close> with an index outside \<open>[0, 3]\<close>, such as 4 or -1, fails with the error
  of the index, which is tested first. The source throws a \<open>DeveloperError\<close> in the three
  cases, told apart by the message: the first two are the hierarchy errors, the third the
  argument error. Both methods take the receiver as a value and assign to none of its fields,
  so a failing call leaves the cell as it was.
\<close>

theorem navigation_errors:
  "(this_level c = 30 \<longrightarrow> (\<exists>m. getChild sb c index = Inl (DeveloperError m)))
   \<and> (this_level c = 30 \<and> 0 \<le> index \<and> index \<le> 3 \<longrightarrow>
        getChild sb c index = Inl (DeveloperError (Some ''cannot get child of leaf cell.'')))
   \<and> (this_level c = 0 \<longrightarrow>
        getParent sb c = Inl (DeveloperError (Some ''cannot get parent of root cell.'')))
   \<and> (index < 0 \<or> 3 < index \<longrightarrow>
        getChild sb c index
          = Inl (DeveloperError (Some ''child index must be in the range [0-3].'')))"
  by (simp add: getChild_def getParent_def)

theorem navigation_errors_witness:
  "S2Cell True 1 = Inr \<lparr>this_cellId = 1, this_level = 30\<rparr>
   \<and> getChild True \<lparr>this_cellId = 1, this_level = 30\<rparr> 0
        = Inl (DeveloperError (Some ''cannot get child of leaf cell.''))
   \<and> S2Cell True (2 ^ 60) = Inr \<lparr>this_cellId = 2 ^ 60, this_level = 0\<rparr>
   \<and> getParent True \<lparr>this_cellId = 2 ^ 60, this_level = 0\<rparr>
        = Inl (DeveloperError (Some ''cannot get parent of root cell.''))
   \<and> getChild True \<lparr>this_cellId = 2 ^ 60, this_level = 0\<rparr> 4
        = Inl (DeveloperError (Some ''child index must be in the range [0-3].''))
   \<and> getChild True \<lparr>this_cellId = 2 ^ 60, this_level = 0\<rparr> (- 1)
        = Inl (DeveloperError (Some ''child index must be in the range [0-3].''))"
proof -
  have v: "isValidId ((2 * 0 + 1) * 2 ^ 0)" "isValidId ((2 * 0 + 1) * 2 ^ 60)"
    unfolding isValidId_repr by simp_all
  have c: "S2Cell True 1 = Inr \<lparr>this_cellId = 1, this_level = 30\<rparr>"
    "S2Cell True (2 ^ 60) = Inr \<lparr>this_cellId = 2 ^ 60, this_level = 0\<rparr>"
    using S2Cell_valid [OF v(1)] S2Cell_valid [OF v(2)] by simp_all
  from navigation_errors [of "\<lparr>this_cellId = 1, this_level = 30\<rparr>" True 0]
    navigation_errors [of "\<lparr>this_cellId = 2 ^ 60, this_level = 0\<rparr>" True 4]
    navigation_errors [of "\<lparr>this_cellId = 2 ^ 60, this_level = 0\<rparr>" True "- 1"]
    c
  show ?thesis by simp
qed

text \<open>
  Claim C9. \<open>FaceUVtoXYZ\<close> returns, for the faces 0 to 5 and all \<open>u\<close> and \<open>v\<close>, the vectors
  \<open>(1, u, v)\<close>, \<open>(-u, 1, v)\<close>, \<open>(-u, -v, 1)\<close>, \<open>(-1, -v, -u)\<close>, \<open>(v, -1, -u)\<close> and
  \<open>(v, u, -1)\<close>.
\<close>

theorem FaceUVtoXYZ_faces:
  "FaceUVtoXYZ (Num 0) u v = Cartesian3 1 u v
   \<and> FaceUVtoXYZ (Num 1) u v = Cartesian3 (- u) 1 v
   \<and> FaceUVtoXYZ (Num 2) u v = Cartesian3 (- u) (- v) 1
   \<and> FaceUVtoXYZ (Num 3) u v = Cartesian3 (- 1) (- v) (- u)
   \<and> FaceUVtoXYZ (Num 4) u v = Cartesian3 v (- 1) (- u)
   \<and> FaceUVtoXYZ (Num 5) u v = Cartesian3 v u (- 1)"
  by (simp add: FaceUVtoXYZ_def)

section \<open>The lookup tables: lemmas\<close>

lemma generateLookupCell_depth:
  "generateLookupCell (S2LookupBits - int n) i j oo p orientation t =
     Some (lookupCell_depth n i j oo p orientation t)"
proof (induction n arbitrary: i j p orientation t)
  case 0
  show ?case by (subst generateLookupCell.simps) simp
next
  case (Suc n)
  have l: "S2LookupBits - int (Suc n) \<noteq> S2LookupBits"
    "S2LookupBits - int (Suc n) + 1 = S2LookupBits - int n"
    by simp_all
  show ?case
    by (subst generateLookupCell.simps)
      (auto simp add: l Let_def Suc.IH and_then_total_def split: option.split prod.split sum.split)
qed

lemma array_read_write:
  "0 \<le> k \<Longrightarrow> array_read (array_write xs k v) k' = (if k' = k then Some v else array_read xs k')"
  by (auto simp add: array_read_def array_write_def nth_append nth_list_update nth_Cons')

lemma length_array_write:
  "0 \<le> k \<Longrightarrow> length (array_write xs k v) = max (length xs) (nat k + 1)"
  by (auto simp add: array_write_def)


lemma mask_reads:
  "array_read S2PosToOrientationMask 0 = Some 1"
  "array_read S2PosToOrientationMask 1 = Some 0"
  "array_read S2PosToOrientationMask 2 = Some 0"
  "array_read S2PosToOrientationMask 3 = Some 3"
  by (simp_all add: array_read_def S2PosToOrientationMask_def S2SwapMask_def S2InvertMask_def
      js_or_def ToInt32_def)

lemmas js_eval = js_shl_def js_shr_def js_and_def js_or_def js_xor_def ToInt32_def
  int32_operand_def number_index_def S2LookupBits_def S2SwapMask_def S2InvertMask_def


lemma js_shl_2: "0 \<le> p \<Longrightarrow> p < 2 ^ 29 \<Longrightarrow> js_shl p 2 = 4 * p"
proof -
  assume p: "0 \<le> p" "p < 2 ^ 29"
  then have "signed_take_bit 31 p = p" "signed_take_bit 31 (4 * p) = 4 * p"
    by (simp_all add: signed_take_bit_int_eq_self)
  then show ?thesis
    by (simp add: js_shl_def ToInt32_def push_bit_eq_mult mult.commute)
qed

lemma lookupCell_depth_writes:
  "orientation \<in> {0, 1, 2, 3} \<Longrightarrow> 0 \<le> p \<Longrightarrow> (p + 1) * 4 ^ n \<le> 2 ^ 29 \<Longrightarrow>
   lookupCell_depth n 0 0 oo p orientation t = (Inr (), cellWrites n oo p orientation t)"
proof (induction n arbitrary: p orientation t)
  case 0
  then have "js_shl p 2 = 4 * p" by (simp add: js_shl_2)
  then show ?case
    by (simp add: writeLookupCell_def js_eval)
next
  case (Suc n)
  have pos: "(1::int) \<le> 4 ^ n" by simp
  from Suc.prems have "(p + 1) * 4 \<le> (p + 1) * 4 * 4 ^ n"
    using pos by (simp add: mult_le_cancel_left1)
  with Suc.prems have p: "p < 2 ^ 29" by (simp add: algebra_simps)
  have sh: "js_shl p 2 = 4 * p" using Suc.prems p by (simp add: js_shl_2)
  have b: "(4 * p + int c + 1) * 4 ^ n \<le> 2 ^ 29" if "c \<le> 3" for c
  proof -
    have "(4 * p + int c + 1) * 4 ^ n \<le> (4 * p + 4) * 4 ^ n"
      using that by (intro mult_right_mono) simp_all
    also have "\<dots> = (p + 1) * 4 ^ Suc n" by (simp add: algebra_simps)
    also have "\<dots> \<le> 2 ^ 29" by (rule Suc.prems(3))
    finally show ?thesis .
  qed
  have v: "orientation XOR 1 \<in> {0, 1, 2, 3}" "orientation XOR 3 \<in> {0, 1, 2, 3}"
    using Suc.prems(1) by auto
  have c0: "lookupCell_depth n 0 0 oo (4 * p) (orientation XOR 1) t' =
      (Inr (), cellWrites n oo (4 * p) (orientation XOR 1) t')" for t'
    using Suc.IH [OF v(1), of "4 * p"] b [of 0] Suc.prems by simp
  have c1: "lookupCell_depth n 0 0 oo (4 * p + 1) orientation t' =
      (Inr (), cellWrites n oo (4 * p + 1) orientation t')" for t'
    using Suc.IH [OF Suc.prems(1), of "4 * p + 1"] b [of 1] Suc.prems by simp
  have c2: "lookupCell_depth n 0 0 oo (4 * p + 2) orientation t' =
      (Inr (), cellWrites n oo (4 * p + 2) orientation t')" for t'
    using Suc.IH [OF Suc.prems(1), of "4 * p + 2"] b [of 2] Suc.prems by simp
  have c3: "lookupCell_depth n 0 0 oo (4 * p + 3) (orientation XOR 3) t' =
      (Inr (), cellWrites n oo (4 * p + 3) (orientation XOR 3) t')" for t'
    using Suc.IH [OF v(2), of "4 * p + 3"] b [of 3] Suc.prems by simp
  have x: "js_xor orientation 1 = orientation XOR 1"
    "js_xor orientation 0 = orientation"
    "js_xor orientation 3 = orientation XOR 3"
    using Suc.prems(1) by (auto simp add: js_xor_def ToInt32_def)
  have r: "\<exists>r. array_read S2PosToOrientationMask orientation = Some r"
    using Suc.prems(1) by (auto simp add: mask_reads)
  have z: "js_shl 0 1 = 0" "js_shr (int32_operand None) 1 = 0" "js_and (int32_operand None) 1 = 0"
    "int32_operand (Some 1) = 1" "int32_operand (Some 0) = 0" "int32_operand (Some 3) = 3"
    by (simp_all add: js_shl_def js_shr_def js_and_def int32_operand_def ToInt32_def)
  from r obtain r' where r': "array_read S2PosToOrientationMask orientation = Some r'" ..
  show ?case
    by (simp add: Let_def r' sh z mask_reads number_index_def x c0 c1 c2 c3 and_then_total_def)
qed

lemma child_range:
  fixes p q c :: int
  assumes "0 \<le> c" "c \<le> 3" "(4 * p + c) * 4 ^ n \<le> q" "q < (4 * p + c + 1) * 4 ^ n"
  shows "p * 4 ^ Suc n \<le> q" "q < (p + 1) * 4 ^ Suc n"
proof -
  define X :: int where "X = 4 ^ n"
  have X: "0 < X" by (simp add: X_def)
  have 1: "(4 * p + c) * X = 4 * (p * X) + c * X"
    and 2: "(4 * p + c + 1) * X = 4 * (p * X) + c * X + X"
    and 3: "p * 4 ^ Suc n = 4 * (p * X)"
    and 4: "(p + 1) * 4 ^ Suc n = 4 * (p * X) + 4 * X"
    by (simp_all add: X_def algebra_simps)
  have 5: "0 \<le> c * X" using assms(1) X by simp
  have 6: "c * X \<le> 3 * X" using assms(2) X by (intro mult_right_mono) simp_all
  show "p * 4 ^ Suc n \<le> q" using assms(3) 1 3 5 unfolding X_def [symmetric] by linarith
  show "q < (p + 1) * 4 ^ Suc n" using assms(4) 2 4 6 unfolding X_def [symmetric] by linarith
qed

lemma cellWrites_IJ_frame:
  "0 \<le> p \<Longrightarrow> 0 \<le> oo \<Longrightarrow> (\<And>q. p * 4 ^ n \<le> q \<Longrightarrow> q < (p + 1) * 4 ^ n \<Longrightarrow> k \<noteq> 4 * q + oo) \<Longrightarrow>
   array_read (S2LookupIJ (cellWrites n oo p orientation t)) k = array_read (S2LookupIJ t) k"
proof (induction n arbitrary: p orientation t)
  case 0
  from 0(3) [of p] have "k \<noteq> 4 * p + oo" by simp
  with 0(1,2) show ?case by (simp add: array_read_write)
next
  case (Suc n)
  have f: "array_read (S2LookupIJ (cellWrites n oo (4 * p + c) o' t')) k = array_read (S2LookupIJ t') k"
    if "0 \<le> c" "c \<le> 3" for c o' t'
  proof (rule Suc.IH)
    show "0 \<le> 4 * p + c" using Suc.prems(1) that by simp
    show "0 \<le> oo" by (rule Suc.prems(2))
    fix q assume "(4 * p + c) * 4 ^ n \<le> q" "q < (4 * p + c + 1) * 4 ^ n"
    from child_range [OF that this] show "k \<noteq> 4 * q + oo" by (rule Suc.prems(3))
  qed
  show ?case
    using f [of 0] f [of 1] f [of 2] f [of 3] by simp
qed

lemma cellWrites_IJ_hit:
  "0 \<le> p \<Longrightarrow> 0 \<le> oo \<Longrightarrow> 0 \<le> d \<Longrightarrow> d < 4 ^ n \<Longrightarrow>
   array_read (S2LookupIJ (cellWrites n oo p orientation t)) (4 * (p * 4 ^ n + d) + oo)
     = Some (orientationAt n orientation d)"
proof (induction n arbitrary: p orientation t d)
  case 0
  then show ?case by (simp add: array_read_write)
next
  case (Suc n)
  define c where "c = d div 4 ^ n"
  define e where "e = d mod 4 ^ n"
  have X: "(0::int) < 4 ^ n" by simp
  have e: "0 \<le> e" "e < 4 ^ n" by (simp_all add: e_def)
  have d: "d = c * 4 ^ n + e"
    using div_mult_mod_eq [of d "4 ^ n"] by (simp add: c_def e_def)
  have "B + e < 4 * Y \<Longrightarrow> 0 \<le> e \<Longrightarrow> B < 4 * Y" for B Y :: int
    by linarith
  from this [of "c * 4 ^ n" "4 ^ n"] have "c * 4 ^ n < 4 * 4 ^ n"
    using d e(1) Suc.prems(4) by simp
  then have "c < 4"
    using X by (simp only: mult_less_cancel_right_pos)
  then have c: "0 \<le> c" "c \<le> 3"
    using Suc.prems(3) by (simp_all add: c_def pos_imp_zdiv_nonneg_iff)
  have key: "4 * (p * 4 ^ Suc n + d) + oo = 4 * ((4 * p + c) * 4 ^ n + e) + oo"
    by (simp add: d algebra_simps)
  have hit: "array_read (S2LookupIJ (cellWrites n oo (4 * p + c) o' t')) (4 * (p * 4 ^ Suc n + d) + oo)
      = Some (orientationAt n o' e)" for o' t'
    unfolding key using Suc.prems(1,2) c e by (intro Suc.IH) simp_all
  have skip: "array_read (S2LookupIJ (cellWrites n oo (4 * p + c') o' t')) (4 * (p * 4 ^ Suc n + d) + oo)
      = array_read (S2LookupIJ t') (4 * (p * 4 ^ Suc n + d) + oo)" if "c < c'" for c' o' t'
  proof (rule cellWrites_IJ_frame)
    show "0 \<le> 4 * p + c'" using Suc.prems(1) c that by simp
    show "0 \<le> oo" by (rule Suc.prems(2))
    fix q assume q: "(4 * p + c') * 4 ^ n \<le> q" "q < (4 * p + c' + 1) * 4 ^ n"
    define X :: int where "X = 4 ^ n"
    have "(c + 1) * X \<le> c' * X"
      using that by (intro mult_right_mono) (simp_all add: X_def)
    moreover have "(c + 1) * X = c * X + X" "(4 * p + c) * X = 4 * (p * X) + c * X"
      "(4 * p + c') * X = 4 * (p * X) + c' * X"
      by (simp_all add: algebra_simps)
    ultimately have "(4 * p + c) * X + e < q"
      using q(1) e(2) unfolding X_def [symmetric] by linarith
    then have "(4 * p + c) * 4 ^ n + e < q" by (simp add: X_def)
    then show "4 * (p * 4 ^ Suc n + d) + oo \<noteq> 4 * q + oo"
      unfolding key by simp
  qed
  from c have "c = 0 \<or> c = 1 \<or> c = 2 \<or> c = 3" by auto
  then show ?case
  proof (elim disjE)
    assume c0: "c = 0"
    then have "orientationAt (Suc n) orientation d = orientationAt n (orientation XOR 1) e"
      by (simp add: c_def e_def)
    then show ?thesis
      using hit [of "orientation XOR 1"] skip [of 1] skip [of 2] skip [of 3] c0 by simp
  next
    assume c1: "c = 1"
    then have "orientationAt (Suc n) orientation d = orientationAt n orientation e"
      by (simp add: c_def e_def)
    then show ?thesis
      using hit [of orientation] skip [of 2] skip [of 3] c1 by simp
  next
    assume c2: "c = 2"
    then have "orientationAt (Suc n) orientation d = orientationAt n orientation e"
      by (simp add: c_def e_def)
    then show ?thesis
      using hit [of orientation] skip [of 3] c2 by simp
  next
    assume c3: "c = 3"
    then have "orientationAt (Suc n) orientation d = orientationAt n (orientation XOR 3) e"
      by (simp add: c_def e_def)
    then show ?thesis
      using hit [of "orientation XOR 3"] c3 by simp
  qed
qed

lemma cellWrites_IJ_length:
  "0 \<le> p \<Longrightarrow> 0 \<le> oo \<Longrightarrow>
   length (S2LookupIJ (cellWrites n oo p orientation t))
     = max (length (S2LookupIJ t)) (nat (4 * ((p + 1) * 4 ^ n - 1) + oo) + 1)"
proof (induction n arbitrary: p orientation t)
  case 0
  then show ?case by (simp add: length_array_write)
next
  case (Suc n)
  define k where "k c = nat (4 * ((4 * p + c + 1) * 4 ^ n - 1) + oo)" for c :: int
  have k3: "k 3 = nat (4 * ((p + 1) * 4 ^ Suc n - 1) + oo)"
    by (simp add: k_def algebra_simps)
  have m: "k c \<le> k 3" if "c \<le> 3" for c
  proof -
    have "(4 * p + c + 1) * 4 ^ n \<le> (4 * p + 3 + 1) * 4 ^ n"
      using that by (intro mult_right_mono) simp_all
    then show ?thesis
      unfolding k_def by (intro nat_mono) simp
  qed
  have l: "length (S2LookupIJ (cellWrites n oo (4 * p + c) o' t'))
      = max (length (S2LookupIJ t')) (k c + 1)"
    if "0 \<le> c" for c o' t'
    unfolding k_def using Suc.prems that by (intro Suc.IH) simp_all
  have l0: "length (S2LookupIJ (cellWrites n oo (4 * p) o' t'))
      = max (length (S2LookupIJ t')) (k 0 + 1)" for o' t'
    using l [of 0 o' t'] by simp
  have g: "a \<le> d \<Longrightarrow> b \<le> d \<Longrightarrow> c \<le> d \<Longrightarrow>
      max (max (max (max L (a + 1)) (b + 1)) (c + 1)) (d + 1) = max L (d + 1)"
    for a b c d L :: nat by (simp add: max_def)
  have "length (S2LookupIJ (cellWrites (Suc n) oo p orientation t))
      = max (max (max (max (length (S2LookupIJ t)) (k 0 + 1)) (k 1 + 1)) (k 2 + 1)) (k 3 + 1)"
    by (simp only: cellWrites.simps l0 l [of 1] l [of 2] l [of 3])
  also have "\<dots> = max (length (S2LookupIJ t)) (k 3 + 1)"
    by (rule g) (simp_all add: m)
  finally show ?case by (simp only: k3)
qed

lemma cellWrites_Positions_length:
  "0 \<le> oo \<Longrightarrow>
   length (S2LookupPositions (cellWrites n oo p orientation t))
     = max (length (S2LookupPositions t)) (nat oo + 1)"
  by (induction n arbitrary: p orientation t) (simp_all add: length_array_write)


lemma generateLookupCell_top:
  "orientation \<in> {0, 1, 2, 3} \<Longrightarrow>
   generateLookupCell 0 0 0 oo 0 orientation t = Some (Inr (), cellWrites 4 oo 0 orientation t)"
  using generateLookupCell_depth [of 4 0 0 oo 0 orientation t]
  by (simp add: S2LookupBits_def lookupCell_depth_writes)

lemma generateLookupTable_initial:
  "generateLookupTable initialTables = Some (Inr (), generatedTables)"
  by (simp add: generateLookupTable_def generateLookupCell_top generatedTables_def
      S2SwapMask_def S2InvertMask_def js_or_def ToInt32_def)

lemma generatedTables_lengths:
  "length (S2LookupPositions generatedTables) = 4"
  "length (S2LookupIJ generatedTables) = 1024"
  by (simp_all add: generatedTables_def cellWrites_Positions_length cellWrites_IJ_length
      initialTables_def)

lemma generatedTables_IJ:
  assumes "0 \<le> q" "q < 256" "oo \<in> {0, 1, 2, 3}"
  shows "array_read (S2LookupIJ generatedTables) (4 * q + oo) = Some (orientationAt 4 oo q)"
proof -
  define k where "k = 4 * q + oo"
  define t0 where "t0 = cellWrites 4 0 0 0 initialTables"
  define t1 where "t1 = cellWrites 4 1 0 1 t0"
  define t2 where "t2 = cellWrites 4 2 0 2 t1"
  have g: "generatedTables = cellWrites 4 3 0 3 t2"
    by (simp add: generatedTables_def t0_def t1_def t2_def)
  have skip: "array_read (S2LookupIJ (cellWrites 4 oo' 0 o' t')) k = array_read (S2LookupIJ t') k"
    if "oo' \<in> {0, 1, 2, 3}" "oo' \<noteq> oo" for oo' o' t'
    unfolding k_def
  proof (rule cellWrites_IJ_frame)
    show "(0::int) \<le> 0" by simp
    show "0 \<le> oo'" using that by auto
    fix q' :: int
    have "0 \<le> oo" "oo < 4" "0 \<le> oo'" "oo' < 4"
      using that assms(3) by auto
    with that(2) show "4 * q + oo \<noteq> 4 * q' + oo'"
      by presburger
  qed
  have hit: "array_read (S2LookupIJ (cellWrites 4 oo 0 oo t')) k = Some (orientationAt 4 oo q)" for t'
    unfolding k_def using cellWrites_IJ_hit [of 0 oo q 4 oo t'] assms by auto
  from assms(3) consider "oo = 0" | "oo = 1" | "oo = 2" | "oo = 3" by auto
  then have "array_read (S2LookupIJ generatedTables) k = Some (orientationAt 4 oo q)"
  proof cases
    case 1
    have "array_read (S2LookupIJ generatedTables) k = array_read (S2LookupIJ t2) k"
      unfolding g by (rule skip) (use 1 in simp_all)
    also have "\<dots> = array_read (S2LookupIJ t1) k"
      unfolding t2_def by (rule skip) (use 1 in simp_all)
    also have "\<dots> = array_read (S2LookupIJ t0) k"
      unfolding t1_def by (rule skip) (use 1 in simp_all)
    also have "\<dots> = Some (orientationAt 4 oo q)"
      unfolding t0_def using hit [of initialTables] 1 by simp
    finally show ?thesis .
  next
    case 2
    have "array_read (S2LookupIJ generatedTables) k = array_read (S2LookupIJ t2) k"
      unfolding g by (rule skip) (use 2 in simp_all)
    also have "\<dots> = array_read (S2LookupIJ t1) k"
      unfolding t2_def by (rule skip) (use 2 in simp_all)
    also have "\<dots> = Some (orientationAt 4 oo q)"
      unfolding t1_def using hit [of t0] 2 by simp
    finally show ?thesis .
  next
    case 3
    have "array_read (S2LookupIJ generatedTables) k = array_read (S2LookupIJ t2) k"
      unfolding g by (rule skip) (use 3 in simp_all)
    also have "\<dots> = Some (orientationAt 4 oo q)"
      unfolding t2_def using hit [of t1] 3 by simp
    finally show ?thesis .
  next
    case 4
    show ?thesis
      unfolding g using hit [of t2] 4 by simp
  qed
  then show ?thesis by (simp only: k_def)
qed



lemma orientationAt_last:
  "orientationAt (Suc n) orientation (4 ^ Suc n - 1) = orientationAt n (orientation XOR 3) (4 ^ n - 1)"
proof -
  have g: "(3 * X + r) div X = 3 \<and> (3 * X + r) mod X = r" if "0 \<le> r" "r < X" for r X :: int
    using that by (simp add: div_pos_pos_trivial)
  have e: "(4::int) ^ Suc n - 1 = 3 * 4 ^ n + (4 ^ n - 1)" by simp
  from g [of "4 ^ n - 1" "4 ^ n"] show ?thesis
    unfolding orientationAt.simps e by simp
qed

lemma cellWrites_Positions_read:
  "0 \<le> oo \<Longrightarrow>
   array_read (S2LookupPositions (cellWrites n oo p orientation t)) oo
     = Some (4 * ((p + 1) * 4 ^ n - 1) + orientationAt n orientation (4 ^ n - 1))"
proof (induction n arbitrary: p orientation t)
  case 0
  then show ?case by (simp add: array_read_write)
next
  case (Suc n)
  have "(4 * p + 3 + 1) * 4 ^ n = (p + 1) * (4::int) ^ Suc n" by (simp add: algebra_simps)
  then show ?case
    using Suc.IH [OF Suc.prems, of "4 * p + 3" "orientation XOR 3"]
    by (simp only: cellWrites.simps orientationAt_last)
qed

lemma cellWrites_Positions_frame:
  "0 \<le> oo \<Longrightarrow> k \<noteq> oo \<Longrightarrow>
   array_read (S2LookupPositions (cellWrites n oo p orientation t)) k
     = array_read (S2LookupPositions t) k"
  by (induction n arbitrary: p orientation t) (simp_all add: array_read_write)

lemma generatedTables_Positions:
  "S2LookupPositions generatedTables = [Some 1020, Some 1021, Some 1022, Some 1023]"
proof -
  have o: "orientationAt 4 0 255 = 0" "orientationAt 4 1 255 = 1" "orientationAt 4 2 255 = 2"
    "orientationAt 4 3 255 = 3"
    by (simp_all add: eval_nat_numeral)
  have r: "array_read (S2LookupPositions generatedTables) 0 = Some 1020"
    "array_read (S2LookupPositions generatedTables) 1 = Some 1021"
    "array_read (S2LookupPositions generatedTables) 2 = Some 1022"
    "array_read (S2LookupPositions generatedTables) 3 = Some 1023"
    unfolding generatedTables_def
    by (simp_all add: cellWrites_Positions_frame cellWrites_Positions_read o)
  have l: "length (S2LookupPositions generatedTables) = 4"
    by (rule generatedTables_lengths)
  then obtain a b c d where x: "S2LookupPositions generatedTables = [a, b, c, d]"
    by (auto simp add: length_Suc_conv eval_nat_numeral)
  from r show ?thesis
    unfolding x by (simp add: array_read_def)
qed

section \<open>The lookup tables after generation\<close>

text \<open>
  Claim C7, where the code departs from it. From the empty tables the generation returns
  and the inverse table \<open>S2LookupIJ\<close> has 1024 entries, but the forward table
  \<open>S2LookupPositions\<close> has four: \<open>r = S2PosToOrientationMask[orientation]\<close> is a Number, so
  that \<open>r[0]\<close> to \<open>r[3]\<close> are \<open>undefined\<close>, \<open>i\<close> and \<open>j\<close> stay 0 and each of the 1024 cells
  writes the forward table at one of the keys 0 to 3. The table meant for \<open>r\<close>, \<open>S2PosToIJ\<close>,
  is never read.
\<close>

theorem generateLookupTable_forward_table:
  "generateLookupTable initialTables = Some (Inr (), generatedTables)
   \<and> S2LookupPositions generatedTables = [Some 1020, Some 1021, Some 1022, Some 1023]
   \<and> length (S2LookupPositions generatedTables) = 4
   \<and> length (S2LookupIJ generatedTables) = 1024"
  by (simp add: generateLookupTable_initial generatedTables_Positions generatedTables_lengths)

section \<open>Decoding: lemmas\<close>

lemma bitLength_le: "n < 2 ^ k \<Longrightarrow> bitLength n \<le> k"
proof (induction k arbitrary: n)
  case 0
  then show ?case by (simp add: bitLength.simps)
next
  case (Suc k)
  then have "n div 2 < 2 ^ k" by simp
  from Suc.IH [OF this] show ?case by (subst bitLength.simps) simp
qed

lemma Number_of_BigInt_small: "\<bar>b\<bar> < 2 ^ 53 \<Longrightarrow> Number_of_BigInt b = Num b"
proof -
  assume "\<bar>b\<bar> < 2 ^ 53"
  then have "nat \<bar>b\<bar> < 2 ^ 53" by (simp add: nat_less_iff)
  then have "bitLength (nat \<bar>b\<bar>) \<le> 53" by (rule bitLength_le)
  then show ?thesis by (simp add: Number_of_BigInt_def Let_def)
qed

lemma generatedTables_IJ_0_512:
  "array_read (S2LookupIJ generatedTables) 0 = Some 0"
  "array_read (S2LookupIJ generatedTables) 512 = Some 1"
proof -
  have "orientationAt 4 0 0 = 0" "orientationAt 4 0 128 = 1"
    by (simp_all add: eval_nat_numeral)
  then show "array_read (S2LookupIJ generatedTables) 0 = Some 0"
    "array_read (S2LookupIJ generatedTables) 512 = Some 1"
    using generatedTables_IJ [of 0 0] generatedTables_IJ [of 128 0] by simp_all
qed

lemmas decode_eval = decodeStep_def Let_def num_add_def array_read_at_def ToInt32N_def
  Number_of_BigInt_small js_eval S2MaxLevel_def generatedTables_IJ_0_512

lemma decodeStep_1024_high:
  "k \<in> {1, 2, 3, 4, 5, 6, 7} \<Longrightarrow>
   decodeStep (S2LookupIJ generatedTables) 1024 k (0, 0, Num 0) = (0, 0, Num 0)"
  by (auto simp add: decode_eval)

lemma decodeStep_1024_low:
  "decodeStep (S2LookupIJ generatedTables) 1024 0 (0, 0, Num 0) = (8, 0, Num 1)"
  by (simp add: decode_eval)

lemma level_1024: "isValidId 1024" "getLevel 1024 = Inr 25"
proof -
  show v: "isValidId 1024" using isValidId_repr [of 0 10] by simp
  from getLevel_repr [of 0 10] v show "getLevel 1024 = Inr 25" by simp
qed

lemma getFaceIJOrientation_1024:
  "getFaceIJOrientation initialTables 1024 None = Some (Inr (8, 0, Num 0, None), generatedTables)"
proof -
  have "length (S2LookupPositions initialTables) = 0"
    by (simp add: initialTables_def)
  then show ?thesis
    by (simp add: getFaceIJOrientation_def generateLookupTable_initial Number_of_BigInt_small
      ToInt32N_def js_and_def ToInt32_def S2SwapMask_def decodeStep_1024_high decodeStep_1024_low
      S2PositionBits_def S2MaxLevel_def truthy_def Let_def)
qed

section \<open>The centre of a cell\<close>

text \<open>
  Claim C6, where the code departs from it. The identifier 1024 is valid, of level 25, and
  decodes to \<open>I = 8\<close>, \<open>J = 0\<close> on face 0. Bit 2 of the identifier is 0 and \<open>I\<close> is even, so
  \<open>((I XOR (id >> 2)) AND 1) = 0\<close> and the claim gives \<open>delta = 0\<close>, that is \<open>(0, 16, 0)\<close>.
  The source tests \<open>i ^ (Number(cellId >> BigInt(2)) & 1)\<close>, which is \<open>8 ^ 0 = 8\<close>, not zero:
  \<open>delta = 2\<close> and the result is \<open>(0, 18, 2)\<close>.
\<close>

theorem getFaceSiTi_1024:
  "isValidId 1024 \<and> getLevel 1024 = Inr 25
   \<and> getFaceIJOrientation initialTables 1024 None
        = Some (Inr (8, 0, Num 0, None), generatedTables)
   \<and> (8 XOR drop_bit 2 1024) AND 1 = (0::int)
   \<and> getFaceSiTi initialTables 1024 = Some (Inr (Num 0, 18, 2), generatedTables)"
proof -
  have "getFaceSiTi initialTables 1024 = Some (Inr (Num 0, 18, 2), generatedTables)"
    by (simp add: getFaceSiTi_def getFaceIJOrientation_1024 level_1024 Number_of_BigInt_small
        ToInt32N_def js_and_def js_xor_def ToInt32_def Let_def)
  then show ?thesis
    by (simp add: level_1024 getFaceIJOrientation_1024)
qed

section \<open>Tokens\<close>

lemma replicate_15: "replicate 15 c = [c, c, c, c, c, c, c, c, c, c, c, c, c, c, c]"
  by (simp add: eval_nat_numeral)

text \<open>
  Claim C1, where the code departs from it. The identifier \<open>2^58 = 0x0400000000000000\<close> is
  valid (face 0, level 1). \<open>toString(16)\<close> writes it without its leading zero, as \<open>4\<close>
  followed by 14 zeros, and the token is \<open>"4"\<close>; \<open>getIdFromToken\<close> pads \<open>"4"\<close> on the right to
  16 digits and returns \<open>0x4000000000000000 = 2^62\<close>. The identifier 0 does give \<open>"X"\<close>.
\<close>

theorem token_of_2_58:
  "isValidId (2 ^ 58) \<and> getTokenFromId (2 ^ 58) = ''4''
   \<and> getIdFromToken (getTokenFromId (2 ^ 58)) = Inr (2 ^ 62)
   \<and> getTokenFromId 0 = ''X'' \<and> getIdFromToken ''X'' = Inr 0"
proof -
  have v: "isValidId (2 ^ 58)" using isValidId_repr [of 0 58] by simp
  have t: "getTokenFromId (2 ^ 58) = ''4''"
    by (simp add: getTokenFromId_def BigInt_toString16_def hexDigits.simps hexDigit_def
        stripTrailingZeros_def)
  have i: "getIdFromToken ''4'' = Inr (2 ^ 62)"
    by (simp add: getIdFromToken_def BigInt_of_0x_def isWhiteSpace_def hexValue_def replicate_15)
  have x: "getTokenFromId 0 = ''X''" "getIdFromToken ''X'' = Inr 0"
    by (simp_all add: getTokenFromId_def getIdFromToken_def)
  from v t i x show ?thesis by simp
qed

end
